theory Spec2Isabelle
  imports Complex_Main "HOL-Library.Sublist" "HOL-Library.Multiset"
begin

section \<open>Link segmentation: \<open>parseTextWithLinks\<close>\<close>

text \<open>
  A JavaScript string is a sequence of code units; it is modelled as a \<open>string\<close>
  (a list of characters), so that \<open>length\<close> is \<open>.length\<close>, \<open>drop i\<close> is
  \<open>.slice(i)\<close> and \<open>take (j - i) (drop i s)\<close> is \<open>.slice(i, j)\<close> for
  \<open>i \<le> j\<close>. Nothing below depends on which characters there are. An absent,
  \<open>undefined\<close> or \<open>null\<close> list of links is the empty list.
\<close>

record link =
  sectionText :: string
  sectionUrl :: string

text \<open>The entries of \<open>linkPositions\<close>: \<open>{start, end, text, url}\<close>.\<close>

record linkPos =
  pos_start :: nat
  pos_end :: nat
  pos_text :: string
  pos_url :: string

datatype segment_type = TextSeg | LinkSeg

text \<open>A segment \<open>{type, content, url?}\<close>; the optional \<open>url\<close> is absent on text segments.\<close>

record segment =
  seg_type :: segment_type
  content :: string
  url :: "string option"

text \<open>
  \<open>String.prototype.indexOf(searchString, position)\<close>: the smallest index \<open>k\<close>, not
  below \<open>min position length\<close>, at which \<open>searchString\<close> occurs; \<open>None\<close> stands for
  the result \<open>-1\<close>. The empty search string occurs at every index up to the length.
\<close>

definition indexOf :: "string \<Rightarrow> string \<Rightarrow> nat \<Rightarrow> nat option" where
  "indexOf s searchString position =
     find (\<lambda>k. prefix searchString (drop k s)) [min position (length s) ..< Suc (length s)]"

text \<open>
  The \<open>while (true)\<close> loop of one link: search from \<open>startIndex\<close>, stop at \<open>-1\<close>,
  otherwise push the position and resume at \<open>index + 1\<close>. The loop has no other exit,
  so it is a partial function: \<open>None\<close> is the loop that never ends (and returns
  nothing: it pushes positions until the memory is used up).
\<close>

partial_function (option) scanLink :: "string \<Rightarrow> link \<Rightarrow> nat \<Rightarrow> linkPos list \<Rightarrow> linkPos list option" where
  "scanLink description lnk startIndex linkPositions =
     (case indexOf description (sectionText lnk) startIndex of
        None \<Rightarrow> Some linkPositions
      | Some index \<Rightarrow>
          scanLink description lnk (index + 1)
            (linkPositions @
              [\<lparr>pos_start = index, pos_end = index + length (sectionText lnk),
                pos_text = sectionText lnk, pos_url = sectionUrl lnk\<rparr>]))"

declare scanLink.simps [code]

text \<open>The \<open>for (const link of links)\<close> loop around it.\<close>

fun scanLinks :: "string \<Rightarrow> link list \<Rightarrow> linkPos list \<Rightarrow> linkPos list option" where
  "scanLinks description [] linkPositions = Some linkPositions"
| "scanLinks description (lnk # links) linkPositions =
     (case scanLink description lnk 0 linkPositions of
        None \<Rightarrow> None
      | Some linkPositions' \<Rightarrow> scanLinks description links linkPositions')"

text \<open>
  \<open>linkPositions.sort((a, b) => a.start - b.start)\<close>: \<open>Array.prototype.sort\<close> is a
  stable sort, and so is \<open>sort_key\<close>.
\<close>

definition sortPositions :: "linkPos list \<Rightarrow> linkPos list" where
  "sortPositions linkPositions = sort_key pos_start linkPositions"

definition textSegment :: "string \<Rightarrow> segment" where
  "textSegment c = \<lparr>seg_type = TextSeg, content = c, url = None\<rparr>"

definition linkSegment :: "linkPos \<Rightarrow> segment" where
  "linkSegment linkPos = \<lparr>seg_type = LinkSeg, content = pos_text linkPos, url = Some (pos_url linkPos)\<rparr>"

text \<open>
  The \<open>for (const linkPos of linkPositions)\<close> loop, on the pair of \<open>segments\<close> and
  \<open>currentIndex\<close>.
\<close>

fun buildSegments :: "string \<Rightarrow> linkPos list \<Rightarrow> segment list \<Rightarrow> nat \<Rightarrow> segment list \<times> nat" where
  "buildSegments description [] segments currentIndex = (segments, currentIndex)"
| "buildSegments description (linkPos # rest) segments currentIndex =
     buildSegments description rest
       ((if currentIndex < pos_start linkPos
         then segments @ [textSegment (take (pos_start linkPos - currentIndex) (drop currentIndex description))]
         else segments) @ [linkSegment linkPos])
       (pos_end linkPos)"

definition parseTextWithLinks :: "string \<Rightarrow> link list \<Rightarrow> segment list option" where
  "parseTextWithLinks description links =
     (if links = [] then Some [textSegment description]
      else case scanLinks description links [] of
        None \<Rightarrow> None
      | Some linkPositions \<Rightarrow>
          (case buildSegments description (sortPositions linkPositions) [] 0 of
             (segments, currentIndex) \<Rightarrow>
               Some (if currentIndex < length description
                     then segments @ [textSegment (drop currentIndex description)]
                     else segments)))"


subsection \<open>The loops in closed form\<close>

text \<open>
  The functions below are not in the source: they say what the loops above compute and
  are used to state and prove properties of \<open>parseTextWithLinks\<close>.
\<close>

text \<open>The object pushed for a match of \<open>lnk\<close> at \<open>index\<close>.\<close>

definition mkPos :: "link \<Rightarrow> nat \<Rightarrow> linkPos" where
  "mkPos lnk index =
     \<lparr>pos_start = index, pos_end = index + length (sectionText lnk),
      pos_text = sectionText lnk, pos_url = sectionUrl lnk\<rparr>"

text \<open>Every index from \<open>s\<close> on at which \<open>t\<close> occurs in \<open>d\<close>, ascending.\<close>

definition occurrences :: "string \<Rightarrow> string \<Rightarrow> nat \<Rightarrow> nat list" where
  "occurrences d t s = filter (\<lambda>k. prefix t (drop k d)) [s ..< length d]"

definition occursAt :: "string \<Rightarrow> string \<Rightarrow> nat \<Rightarrow> bool" where
  "occursAt d t k = (k < length d \<and> prefix t (drop k d))"

definition linkOccurrences :: "string \<Rightarrow> link \<Rightarrow> linkPos list" where
  "linkOccurrences d lnk = map (mkPos lnk) (occurrences d (sectionText lnk) 0)"

definition allPositions :: "string \<Rightarrow> link list \<Rightarrow> linkPos list" where
  "allPositions d links = concat (map (linkOccurrences d) links)"

text \<open>The segments the second loop pushes, from cursor \<open>cur\<close>, and the cursor it ends with.\<close>

fun emitted :: "string \<Rightarrow> linkPos list \<Rightarrow> nat \<Rightarrow> segment list" where
  "emitted d [] cur = []"
| "emitted d (p # ps) cur =
     (if cur < pos_start p then [textSegment (take (pos_start p - cur) (drop cur d))] else [])
     @ linkSegment p # emitted d ps (pos_end p)"

fun cursorAfter :: "linkPos list \<Rightarrow> nat \<Rightarrow> nat" where
  "cursorAfter [] cur = cur"
| "cursorAfter (p # ps) cur = cursorAfter ps (pos_end p)"

definition trailing :: "string \<Rightarrow> nat \<Rightarrow> segment list" where
  "trailing d cur = (if cur < length d then [textSegment (drop cur d)] else [])"

text \<open>What \<open>parseTextWithLinks\<close> returns for the sorted positions \<open>ps\<close>.\<close>

definition segmentsOf :: "string \<Rightarrow> linkPos list \<Rightarrow> segment list" where
  "segmentsOf d ps = emitted d ps 0 @ trailing d (cursorAfter ps 0)"

text \<open>A position is valid for \<open>d\<close> when its text is in \<open>d\<close> at its start and ends at its end.\<close>

definition validPos :: "string \<Rightarrow> linkPos \<Rightarrow> bool" where
  "validPos d p =
     (pos_start p < length d \<and> prefix (pos_text p) (drop (pos_start p) d) \<and>
      pos_end p = pos_start p + length (pos_text p))"

text \<open>
  A list of positions is non-overlapping from \<open>cur\<close> when each one starts at or after
  the end of the one before it (and the first at or after \<open>cur\<close>).
\<close>

fun nonOverlapping :: "nat \<Rightarrow> linkPos list \<Rightarrow> bool" where
  "nonOverlapping cur [] = True"
| "nonOverlapping cur (p # ps) = (cur \<le> pos_start p \<and> nonOverlapping (pos_end p) ps)"



definition isLink :: "segment \<Rightarrow> bool" where
  "isLink seg = (seg_type seg = LinkSeg)"

definition isText :: "segment \<Rightarrow> bool" where
  "isText seg = (seg_type seg = TextSeg)"

section \<open>Animation scheduling: \<open>OnboardingView\<close> and \<open>Feature\<close>\<close>

text \<open>The constants of \<open>ANIMATION_CONFIG\<close>; durations and delays are milliseconds.\<close>

record animation_config =
  FADE_IN_DURATION :: nat
  MOVE_UP_DURATION :: nat
  FEATURE_DURATION :: nat
  STAGGER_DELAY :: nat
  BUFFER_DELAY :: nat
  INITIAL_SCALE :: real
  BACK_EASING_FACTOR :: real
  FEATURE_TRANSLATE_OFFSET :: nat
  SCREEN_HEIGHT_FACTOR :: real

definition ANIMATION_CONFIG :: animation_config where
  "ANIMATION_CONFIG =
     \<lparr>FADE_IN_DURATION = 600, MOVE_UP_DURATION = 800, FEATURE_DURATION = 750,
      STAGGER_DELAY = 420, BUFFER_DELAY = 200, INITIAL_SCALE = 7 / 10,
      BACK_EASING_FACTOR = 12 / 10, FEATURE_TRANSLATE_OFFSET = 42,
      SCREEN_HEIGHT_FACTOR = 1 / 4\<rparr>"

text \<open>
  The \<open>Animated.Value\<close>s of one screen: four of \<open>OnboardingView\<close> and two of each
  \<open>Feature\<close>, named by the feature's index.
\<close>

datatype animValue =
  iconTitleOpacity | iconTitleScale | iconTitleTranslateY | blurViewOpacity
  | featureOpacity nat | featureTranslateY nat

text \<open>
  \<open>Animated.timing(value, {toValue, duration, ...}).start()\<close> begins to write
  \<open>value\<close>; the model records the call and the time of the call.
\<close>

record animation =
  anim_value :: animValue
  anim_toValue :: nat
  anim_duration :: nat
  anim_start :: nat

text \<open>
  The closures handed to \<open>setTimeout\<close>: the three of the mount effect of
  \<open>OnboardingView\<close> and the one of the effect of \<open>Feature\<close>.
\<close>

datatype callback = MoveUp | TriggerFeatures | BlurIn | FeatureIn nat

record timer =
  due :: nat
  callback :: callback

text \<open>
  One screen instance on the single UI thread: the clock, whether the component is
  mounted, the state \<open>shouldAnimateFeatures\<close>, \<open>features.length\<close>, the pending
  timers in the order in which they will fire, and the animations started so far.
  Rendering and effects take no time.
\<close>

record screen =
  clock :: nat
  mounted :: bool
  shouldAnimateFeatures :: bool
  featureCount :: nat
  timers :: "timer list"
  animations :: "animation list"

text \<open>
  The timer queue of the runtime: timers fire in order of due time, and timers due at
  the same time in the order in which they were set.
\<close>

fun enqueue :: "timer \<Rightarrow> timer list \<Rightarrow> timer list" where
  "enqueue t [] = [t]"
| "enqueue t (u # us) = (if due t < due u then t # u # us else u # enqueue t us)"

definition setTimeout :: "callback \<Rightarrow> nat \<Rightarrow> screen \<Rightarrow> screen" where
  "setTimeout cb delay s =
     s\<lparr>timers := enqueue \<lparr>due = clock s + delay, callback = cb\<rparr> (timers s)\<rparr>"

definition startTiming :: "animValue \<Rightarrow> nat \<Rightarrow> nat \<Rightarrow> screen \<Rightarrow> screen" where
  "startTiming v toValue duration s =
     s\<lparr>animations := animations s @
          [\<lparr>anim_value = v, anim_toValue = toValue, anim_duration = duration,
            anim_start = clock s\<rparr>]\<rparr>"

definition featureAnimationTriggerDelay :: nat where
  "featureAnimationTriggerDelay =
     FADE_IN_DURATION ANIMATION_CONFIG + MOVE_UP_DURATION ANIMATION_CONFIG
       + BUFFER_DELAY ANIMATION_CONFIG"

text \<open>The effect of \<open>OnboardingView\<close> that runs on mount. It returns no cleanup.\<close>

definition mountEffect :: "screen \<Rightarrow> screen" where
  "mountEffect s =
     setTimeout BlurIn
       (featureAnimationTriggerDelay + featureCount s * STAGGER_DELAY ANIMATION_CONFIG
          + BUFFER_DELAY ANIMATION_CONFIG)
       (setTimeout TriggerFeatures featureAnimationTriggerDelay
         (setTimeout MoveUp (FADE_IN_DURATION ANIMATION_CONFIG)
           (startTiming iconTitleScale 1 (FADE_IN_DURATION ANIMATION_CONFIG)
             (startTiming iconTitleOpacity 1 (FADE_IN_DURATION ANIMATION_CONFIG) s))))"

text \<open>The prop \<open>animationDelay\<close> that \<open>OnboardingView\<close> gives the feature at \<open>index\<close>.\<close>

definition animationDelay :: "nat \<Rightarrow> nat" where
  "animationDelay index = index * STAGGER_DELAY ANIMATION_CONFIG"

text \<open>
  The effect of the \<open>Feature\<close> at \<open>index\<close>, which runs when the feature is mounted
  and when its prop \<open>shouldAnimate\<close> changes. It returns no cleanup either.
\<close>

definition featureEffect :: "nat \<Rightarrow> screen \<Rightarrow> screen" where
  "featureEffect index s =
     (if shouldAnimateFeatures s then setTimeout (FeatureIn index) (animationDelay index) s
      else s)"

text \<open>
  Mounting a screen with \<open>n\<close> features at time 0: the effects of the children run,
  then the effect of \<open>OnboardingView\<close>.
\<close>

definition mount :: "nat \<Rightarrow> screen" where
  "mount n =
     mountEffect
       (fold featureEffect [0 ..< n]
         \<lparr>clock = 0, mounted = True, shouldAnimateFeatures = False, featureCount = n,
          timers = [], animations = []\<rparr>)"

text \<open>
  Unmounting runs the cleanups that the effects returned. Neither effect returns one,
  and no call of \<open>clearTimeout\<close> or \<open>stop\<close> exists in the source, so the timers and
  the animations stay as they are.
\<close>

definition unmount :: "screen \<Rightarrow> screen" where
  "unmount s = s\<lparr>mounted := False\<rparr>"

text \<open>
  \<open>setShouldAnimateFeatures(true)\<close>: on a mounted component whose state is
  \<open>false\<close> the state changes, the features render again with \<open>shouldAnimate\<close> true and
  their effects run, in array order. On an unmounted component a state update does
  nothing.
\<close>

definition setShouldAnimateFeatures :: "screen \<Rightarrow> screen" where
  "setShouldAnimateFeatures s =
     (if mounted s \<and> \<not> shouldAnimateFeatures s
      then fold featureEffect [0 ..< featureCount s] (s\<lparr>shouldAnimateFeatures := True\<rparr>)
      else s)"

fun runCallback :: "callback \<Rightarrow> screen \<Rightarrow> screen" where
  "runCallback MoveUp s = startTiming iconTitleTranslateY 0 (MOVE_UP_DURATION ANIMATION_CONFIG) s"
| "runCallback TriggerFeatures s = setShouldAnimateFeatures s"
| "runCallback BlurIn s = startTiming blurViewOpacity 1 (FEATURE_DURATION ANIMATION_CONFIG) s"
| "runCallback (FeatureIn index) s =
     startTiming (featureTranslateY index) 0 (FEATURE_DURATION ANIMATION_CONFIG)
       (startTiming (featureOpacity index) 1 (FEATURE_DURATION ANIMATION_CONFIG) s)"

text \<open>The runtime fires the next pending timer, if there is one, at its due time.\<close>

definition fire :: "screen \<Rightarrow> screen" where
  "fire s =
     (case timers s of
        [] \<Rightarrow> s
      | t # ts \<Rightarrow> runCallback (callback t) (s\<lparr>clock := max (clock s) (due t), timers := ts\<rparr>))"

fun run :: "nat \<Rightarrow> screen \<Rightarrow> screen" where
  "run 0 s = s"
| "run (Suc k) s = run k (fire s)"

text \<open>The time at which the first animation of a value was started, if any was.\<close>

definition startOf :: "animValue \<Rightarrow> screen \<Rightarrow> nat option" where
  "startOf v s = map_option anim_start (find (\<lambda>a. anim_value a = v) (animations s))"


subsection \<open>The schedule in closed form\<close>

text \<open>
  Not in the source: the timer that the effect of feature \<open>i\<close> sets when it runs at
  time \<open>c\<close>, and the two animations that this timer starts.
\<close>

definition featureTimer :: "nat \<Rightarrow> nat \<Rightarrow> timer" where
  "featureTimer c i = \<lparr>due = c + animationDelay i, callback = FeatureIn i\<rparr>"

definition featureAnimations :: "nat \<Rightarrow> nat \<Rightarrow> animation list" where
  "featureAnimations c i =
     [\<lparr>anim_value = featureOpacity i, anim_toValue = 1,
       anim_duration = FEATURE_DURATION ANIMATION_CONFIG, anim_start = c + animationDelay i\<rparr>,
      \<lparr>anim_value = featureTranslateY i, anim_toValue = 0,
       anim_duration = FEATURE_DURATION ANIMATION_CONFIG, anim_start = c + animationDelay i\<rparr>]"

text \<open>The screen with \<open>n\<close> features after its first timer has fired.\<close>

definition afterMoveUp :: "nat \<Rightarrow> screen" where
  "afterMoveUp n =
     \<lparr>clock = 600, mounted = True, shouldAnimateFeatures = False, featureCount = n,
      timers = [\<lparr>due = 1600, callback = TriggerFeatures\<rparr>,
                \<lparr>due = 1800 + n * 420, callback = BlurIn\<rparr>],
      animations =
        [\<lparr>anim_value = iconTitleOpacity, anim_toValue = 1, anim_duration = 600, anim_start = 0\<rparr>,
         \<lparr>anim_value = iconTitleScale, anim_toValue = 1, anim_duration = 600, anim_start = 0\<rparr>,
         \<lparr>anim_value = iconTitleTranslateY, anim_toValue = 0, anim_duration = 800, anim_start = 600\<rparr>]\<rparr>"

section \<open>Properties of the segmentation\<close>

subsection \<open>\<open>indexOf\<close>\<close>

lemma find_upt_Some_iff:
  "find P [a..<b] = Some i \<longleftrightarrow> a \<le> i \<and> i < b \<and> P i \<and> (\<forall>k. a \<le> k \<and> k < i \<longrightarrow> \<not> P k)"
proof
  assume "find P [a..<b] = Some i"
  then obtain j where j: "j < b - a" "P (a + j)" "i = a + j" "\<forall>m<j. \<not> P (a + m)"
    by (auto simp: find_Some_iff)
  have "\<not> P k" if "a \<le> k" "k < i" for k
  proof -
    from that j(3) have "k - a < j" and "k = a + (k - a)" by arith+
    with j(4) show ?thesis by metis
  qed
  with j show "a \<le> i \<and> i < b \<and> P i \<and> (\<forall>k. a \<le> k \<and> k < i \<longrightarrow> \<not> P k)"
    by auto
next
  assume "a \<le> i \<and> i < b \<and> P i \<and> (\<forall>k. a \<le> k \<and> k < i \<longrightarrow> \<not> P k)"
  then have "i - a < length [a..<b] \<and> P ([a..<b] ! (i - a)) \<and> i = [a..<b] ! (i - a) \<and>
     (\<forall>m<i - a. \<not> P ([a..<b] ! m))"
    by auto
  then show "find P [a..<b] = Some i"
    unfolding find_Some_iff by blast
qed

lemma find_upt_None_iff:
  "find P [a..<b] = None \<longleftrightarrow> (\<forall>k. a \<le> k \<and> k < b \<longrightarrow> \<not> P k)"
  by (auto simp: find_None_iff)

lemma indexOf_empty: "indexOf d [] s = Some (min s (length d))"
  unfolding indexOf_def by (simp add: upt_rec)

lemma indexOf_Some_iff:
  "indexOf d t s = Some i \<longleftrightarrow>
     min s (length d) \<le> i \<and> i \<le> length d \<and> prefix t (drop i d) \<and>
     (\<forall>k. min s (length d) \<le> k \<and> k < i \<longrightarrow> \<not> prefix t (drop k d))"
  unfolding indexOf_def find_upt_Some_iff by auto

lemma indexOf_None_iff:
  "indexOf d t s = None \<longleftrightarrow>
     (\<forall>k. min s (length d) \<le> k \<and> k \<le> length d \<longrightarrow> \<not> prefix t (drop k d))"
  unfolding indexOf_def find_upt_None_iff by auto

lemma prefix_drop_lt: "t \<noteq> [] \<Longrightarrow> prefix t (drop k d) \<Longrightarrow> k < length d"
  by (cases "k < length d") auto

subsection \<open>The scan of one link\<close>

lemma occurrences_none:
  assumes "t \<noteq> []" "indexOf d t s = None"
  shows "occurrences d t s = []"
proof -
  have "\<not> prefix t (drop k d)" if "s \<le> k" "k < length d" for k
    using assms(2) that unfolding indexOf_None_iff by auto
  then show ?thesis
    by (auto simp: occurrences_def filter_empty_conv)
qed

lemma occurrences_some:
  assumes "t \<noteq> []" "indexOf d t s = Some i"
  shows "s \<le> i \<and> i < length d \<and> occurrences d t s = i # occurrences d t (Suc i)"
proof -
  from assms(2) have i: "min s (length d) \<le> i" "prefix t (drop i d)"
    and no: "\<And>k. min s (length d) \<le> k \<Longrightarrow> k < i \<Longrightarrow> \<not> prefix t (drop k d)"
    unfolding indexOf_Some_iff by auto
  from assms(1) i(2) have lt: "i < length d" by (rule prefix_drop_lt)
  with i(1) have si: "s \<le> i" by (simp add: min_def split: if_splits)
  then have "[s ..< length d] = [s ..< i] @ i # [Suc i ..< length d]"
    using lt by (metis le_add_diff_inverse less_imp_le_nat upt_add_eq_append upt_conv_Cons)
  moreover have "filter (\<lambda>k. prefix t (drop k d)) [s ..< i] = []"
    using no si lt by (auto simp: filter_empty_conv min_def)
  ultimately show ?thesis
    using si lt i(2) by (simp add: occurrences_def)
qed

text \<open>With a non-empty search text the loop ends, and it finds every occurrence.\<close>

lemma scanLink_closed:
  assumes "sectionText lnk \<noteq> []"
  shows "scanLink d lnk s acc = Some (acc @ map (mkPos lnk) (occurrences d (sectionText lnk) s))"
  using assms
proof (induction "length d - s" arbitrary: s acc rule: less_induct)
  case less
  show ?case
  proof (cases "indexOf d (sectionText lnk) s")
    case None
    with less.prems show ?thesis
      by (subst scanLink.simps) (simp add: occurrences_none)
  next
    case (Some i)
    from occurrences_some[OF less.prems Some]
    have i: "s \<le> i" "i < length d"
      and occ: "occurrences d (sectionText lnk) s = i # occurrences d (sectionText lnk) (Suc i)"
      by auto
    from i have "length d - Suc i < length d - s" by arith
    from less.hyps[OF this less.prems]
    have "scanLink d lnk (Suc i) (acc @ [mkPos lnk i]) =
            Some ((acc @ [mkPos lnk i]) @ map (mkPos lnk) (occurrences d (sectionText lnk) (Suc i)))" .
    with Some occ show ?thesis
      by (subst scanLink.simps) (simp add: mkPos_def)
  qed
qed

text \<open>With the empty search text \<open>indexOf\<close> never answers \<open>-1\<close>, and the loop never ends.\<close>

lemma scanLink_Some_nonempty:
  assumes "scanLink d lnk s acc = Some y"
  shows "sectionText lnk \<noteq> []"
proof (rule scanLink.raw_induct[where P = "\<lambda>d lnk s acc y. sectionText lnk \<noteq> []", OF _ assms])
  fix scanLink' :: "string \<Rightarrow> link \<Rightarrow> nat \<Rightarrow> linkPos list \<Rightarrow> linkPos list option"
  fix d lnk s acc y
  assume IH: "\<And>d lnk s acc y. scanLink' d lnk s acc = Some y \<Longrightarrow> sectionText lnk \<noteq> []"
    and step: "(case indexOf d (sectionText lnk) s of
        None \<Rightarrow> Some acc
      | Some index \<Rightarrow>
          scanLink' d lnk (index + 1)
            (acc @
              [\<lparr>pos_start = index, pos_end = index + length (sectionText lnk),
                pos_text = sectionText lnk, pos_url = sectionUrl lnk\<rparr>])) = Some y"
  show "sectionText lnk \<noteq> []"
  proof
    assume e: "sectionText lnk = []"
    with step obtain i ps where "scanLink' d lnk i ps = Some y"
      by (auto simp: indexOf_empty)
    from IH[OF this] e show False by simp
  qed
qed

lemma scanLink_empty_None: "sectionText lnk = [] \<Longrightarrow> scanLink d lnk s acc = None"
  using scanLink_Some_nonempty by (cases "scanLink d lnk s acc") auto


subsection \<open>The loops in closed form\<close>

lemma scanLinks_closed:
  "list_all (\<lambda>l. sectionText l \<noteq> []) links \<Longrightarrow>
     scanLinks d links acc = Some (acc @ allPositions d links)"
  by (induction links arbitrary: acc)
     (simp_all add: allPositions_def linkOccurrences_def scanLink_closed)

lemma scanLinks_None:
  "\<not> list_all (\<lambda>l. sectionText l \<noteq> []) links \<Longrightarrow> scanLinks d links acc = None"
  by (induction links arbitrary: acc)
     (auto simp: scanLink_empty_None split: option.splits)

lemma scanLinks_Some_iff:
  "scanLinks d links acc = Some ps \<longleftrightarrow>
     list_all (\<lambda>l. sectionText l \<noteq> []) links \<and> ps = acc @ allPositions d links"
  by (cases "list_all (\<lambda>l. sectionText l \<noteq> []) links")
     (auto simp: scanLinks_closed scanLinks_None)

lemma buildSegments_closed:
  "buildSegments d ps segs cur = (segs @ emitted d ps cur, cursorAfter ps cur)"
  by (induction ps arbitrary: segs cur) simp_all

lemma parse_closed:
  assumes "links \<noteq> []"
  shows "parseTextWithLinks d links =
     (if list_all (\<lambda>l. sectionText l \<noteq> []) links
      then Some (segmentsOf d (sortPositions (allPositions d links)))
      else None)"
  using assms
  by (simp add: parseTextWithLinks_def scanLinks_closed scanLinks_None buildSegments_closed
        segmentsOf_def trailing_def)


subsection \<open>Positions found are valid, and what the second loop emits\<close>

lemma occurrences_iff: "k \<in> set (occurrences d t s) \<longleftrightarrow> s \<le> k \<and> k < length d \<and> prefix t (drop k d)"
  by (auto simp: occurrences_def)

lemma validPos_mkPos: "k \<in> set (occurrences d (sectionText lnk) s) \<Longrightarrow> validPos d (mkPos lnk k)"
  by (simp add: occurrences_iff validPos_def mkPos_def)

lemma validPos_allPositions: "list_all (validPos d) (allPositions d links)"
  by (auto simp: list_all_iff allPositions_def linkOccurrences_def validPos_mkPos)

lemma validPos_sortPositions: "list_all (validPos d) (sortPositions (allPositions d links))"
  using validPos_allPositions[of d links] by (simp add: list_all_iff sortPositions_def)

lemma validPos_end: "validPos d p \<Longrightarrow> pos_end p \<le> length d"
  unfolding validPos_def
  by (metis prefix_length_le length_drop add.commute le_add_diff_inverse2 less_imp_le_nat nat_add_left_cancel_le)

lemma validPos_text: "validPos d p \<Longrightarrow> pos_text p = take (pos_end p - pos_start p) (drop (pos_start p) d)"
  unfolding validPos_def by (auto simp: prefix_def)

lemma slice_join:
  assumes "c \<le> s" "s \<le> e" "e \<le> length d"
  shows "take (s - c) (drop c d) @ take (e - s) (drop s d) @ drop e d = drop c d"
proof -
  have "take (e - s) (drop s d) @ drop e d = drop s d"
    using assms by (metis append_take_drop_id drop_drop le_add_diff_inverse2)
  moreover have "take (s - c) (drop c d) @ drop s d = drop c d"
    using assms by (metis append_take_drop_id drop_drop le_add_diff_inverse2)
  ultimately show ?thesis by simp
qed

lemma concat_emitted:
  "list_all (validPos d) ps \<Longrightarrow> nonOverlapping cur ps \<Longrightarrow> cur \<le> length d \<Longrightarrow>
     concat (map content (emitted d ps cur @ trailing d (cursorAfter ps cur))) = drop cur d"
proof (induction ps arbitrary: cur)
  case Nil
  then show ?case by (simp add: trailing_def textSegment_def)
next
  case (Cons p ps)
  from Cons.prems have v: "validPos d p" and c: "cur \<le> pos_start p" by simp_all
  from v have e: "pos_end p \<le> length d" by (rule validPos_end)
  from v have se: "pos_start p \<le> pos_end p" by (simp add: validPos_def)
  from Cons.prems e have
    IH: "concat (map content (emitted d ps (pos_end p) @ trailing d (cursorAfter ps (pos_end p)))) = drop (pos_end p) d"
    by (intro Cons.IH) simp_all
  have "concat (map content (emitted d (p # ps) cur @ trailing d (cursorAfter (p # ps) cur)))
      = take (pos_start p - cur) (drop cur d) @ pos_text p @ drop (pos_end p) d"
    using IH by (simp add: textSegment_def linkSegment_def)
  also have "\<dots> = drop cur d"
    using slice_join[OF c se e] validPos_text[OF v] by simp
  finally show ?case .
qed

lemma text_emitted_nonempty:
  "list_all (validPos d) ps \<Longrightarrow> seg \<in> set (emitted d ps cur) \<Longrightarrow> isText seg \<Longrightarrow> content seg \<noteq> []"
proof (induction ps arbitrary: cur)
  case Nil
  then show ?case by simp
next
  case (Cons p ps)
  then show ?case
    by (auto simp: isText_def textSegment_def linkSegment_def validPos_def split: if_splits)
qed

lemma text_trailing_nonempty: "seg \<in> set (trailing d cur) \<Longrightarrow> content seg \<noteq> []"
  by (auto simp: trailing_def textSegment_def split: if_splits)

lemma links_emitted: "filter isLink (emitted d ps cur) = map linkSegment ps"
  by (induction ps arbitrary: cur) (simp_all add: isLink_def textSegment_def linkSegment_def)

lemma links_trailing: "filter isLink (trailing d cur) = []"
  by (simp add: trailing_def isLink_def textSegment_def)



subsection \<open>Stable sorting\<close>


lemma sorted_split3:
  "sorted (map f xs) \<Longrightarrow>
     xs = filter (\<lambda>x. f x < k) xs @ filter (\<lambda>x. f x = k) xs @ filter (\<lambda>x. k < f x) xs"
  for f :: "'a \<Rightarrow> nat"
proof (induction xs)
  case Nil
  then show ?case by simp
next
  case (Cons x xs)
  then have IH: "xs = filter (\<lambda>x. f x < k) xs @ filter (\<lambda>x. f x = k) xs @ filter (\<lambda>x. k < f x) xs"
    and le: "\<And>y. y \<in> set xs \<Longrightarrow> f x \<le> f y"
    by auto
  consider "f x < k" | "f x = k" | "k < f x" by arith
  then show ?case
  proof cases
    case 1
    with IH show ?thesis by simp
  next
    case 2
    then have "filter (\<lambda>x. f x < k) xs = []"
      using le by (auto simp: filter_empty_conv dest: le)
    with 2 IH show ?thesis by simp
  next
    case 3
    then have "filter (\<lambda>x. f x < k) xs = []" "filter (\<lambda>x. f x = k) xs = []"
      using le by (auto simp: filter_empty_conv dest: le)
    with 3 IH show ?thesis by simp
  qed
qed


subsection \<open>Occurrences that start at the same index\<close>

lemma emitted_append:
  "emitted d (as @ bs) cur = emitted d as cur @ emitted d bs (cursorAfter as cur)"
  by (induction as arbitrary: cur) simp_all

lemma cursorAfter_append: "cursorAfter (as @ bs) cur = cursorAfter bs (cursorAfter as cur)"
  by (induction as arbitrary: cur) simp_all

lemma emitted_no_gap:
  "list_all (\<lambda>m. pos_start m = k \<and> k \<le> pos_end m) ms \<Longrightarrow> k \<le> c \<Longrightarrow>
     emitted d ms c = map linkSegment ms"
  by (induction ms arbitrary: c) simp_all

lemma emitted_same_start:
  assumes "list_all (\<lambda>m. pos_start m = k \<and> k \<le> pos_end m) ms"
  shows "\<exists>pre. emitted d ms c = pre @ map linkSegment ms \<and> filter isLink pre = []"
proof (cases ms)
  case Nil
  then show ?thesis by simp
next
  case (Cons m ms')
  with assms have "emitted d ms' (pos_end m) = map linkSegment ms'"
    by (intro emitted_no_gap[where k = k]) simp_all
  with Cons show ?thesis
    by (simp add: isLink_def textSegment_def)
qed

lemma filter_eq_upt: "filter (\<lambda>i. i = k) [0..<n] = (if k < n then [k] else [])"
  by (induction n) auto

lemma occurrences_at:
  "filter (\<lambda>i. i = k) (occurrences d t 0) = (if occursAt d t k then [k] else [])"
proof -
  have "filter (\<lambda>i. i = k) (occurrences d t 0)
      = filter (\<lambda>i. prefix t (drop i d)) (filter (\<lambda>i. i = k) [0..<length d])"
    unfolding occurrences_def filter_filter by (rule filter_cong) auto
  then show ?thesis
    by (simp add: filter_eq_upt occursAt_def)
qed

lemma linkOccurrences_at:
  "filter (\<lambda>p. pos_start p = k) (linkOccurrences d lnk)
     = (if occursAt d (sectionText lnk) k then [mkPos lnk k] else [])"
proof -
  have "filter (\<lambda>p. pos_start p = k) (linkOccurrences d lnk)
      = map (mkPos lnk) (filter (\<lambda>i. i = k) (occurrences d (sectionText lnk) 0))"
    by (simp add: linkOccurrences_def filter_map comp_def mkPos_def)
  then show ?thesis by (simp add: occurrences_at)
qed

lemma allPositions_at:
  "filter (\<lambda>p. pos_start p = k) (allPositions d links)
     = map (\<lambda>l. mkPos l k) (filter (\<lambda>l. occursAt d (sectionText l) k) links)"
  by (induction links) (simp_all add: allPositions_def linkOccurrences_at)

lemma sortPositions_at:
  "filter (\<lambda>p. pos_start p = k) (sortPositions (allPositions d links))
     = map (\<lambda>l. mkPos l k) (filter (\<lambda>l. occursAt d (sectionText l) k) links)"
  unfolding sortPositions_def sort_key_stable by (rule allPositions_at)

lemma segmentsOf_at:
  assumes "sorted (map pos_start ps)" "list_all (validPos d) ps"
  shows "\<exists>pre post. segmentsOf d ps = pre @ map linkSegment (filter (\<lambda>p. pos_start p = k) ps) @ post
     \<and> filter isLink pre = map linkSegment (filter (\<lambda>p. pos_start p < k) ps)
     \<and> filter isLink post = map linkSegment (filter (\<lambda>p. k < pos_start p) ps)"
proof -
  let ?A = "filter (\<lambda>p. pos_start p < k) ps"
  let ?M = "filter (\<lambda>p. pos_start p = k) ps"
  let ?B = "filter (\<lambda>p. k < pos_start p) ps"
  have split: "ps = ?A @ ?M @ ?B" using assms(1) by (rule sorted_split3)
  have "list_all (\<lambda>m. pos_start m = k \<and> k \<le> pos_end m) ?M"
    using assms(2) by (auto simp: list_all_iff validPos_def)
  then obtain gap where gap: "emitted d ?M (cursorAfter ?A 0) = gap @ map linkSegment ?M"
    "filter isLink gap = []"
    using emitted_same_start by blast
  let ?pre = "emitted d ?A 0 @ gap"
  let ?post = "emitted d ?B (cursorAfter (?A @ ?M) 0) @ trailing d (cursorAfter ps 0)"
  have "segmentsOf d ps = emitted d (?A @ ?M @ ?B) 0 @ trailing d (cursorAfter ps 0)"
    unfolding segmentsOf_def using split by simp
  also have "\<dots> = ?pre @ map linkSegment ?M @ ?post"
    using gap(1) by (simp add: emitted_append cursorAfter_append)
  finally have "segmentsOf d ps = ?pre @ map linkSegment ?M @ ?post" .
  moreover have "filter isLink ?pre = map linkSegment ?A"
    using gap(2) by (simp add: links_emitted)
  moreover have "filter isLink ?post = map linkSegment ?B"
    by (simp add: links_emitted links_trailing)
  ultimately show ?thesis by blast
qed

subsection \<open>Texts that do not occur\<close>

lemma sublist_iff_prefix_drop: "sublist t d \<longleftrightarrow> (\<exists>k\<le>length d. prefix t (drop k d))"
proof
  assume "sublist t d"
  then obtain ps ss where "d = ps @ t @ ss" by (auto simp: sublist_def)
  then have "length ps \<le> length d \<and> prefix t (drop (length ps) d)" by simp
  then show "\<exists>k\<le>length d. prefix t (drop k d)" by blast
next
  assume "\<exists>k\<le>length d. prefix t (drop k d)"
  then obtain k ss where "drop k d = t @ ss" by (auto simp: prefix_def)
  then have "d = take k d @ t @ ss" by (metis append_take_drop_id)
  then show "sublist t d" unfolding sublist_def by blast
qed

lemma not_sublist_occurrences:
  assumes "\<not> sublist t d"
  shows "t \<noteq> []" and "occurrences d t 0 = []"
proof -
  from assms show "t \<noteq> []" by auto
  from assms have "\<not> prefix t (drop k d)" if "k < length d" for k
    using that unfolding sublist_iff_prefix_drop by auto
  then show "occurrences d t 0 = []"
    by (auto simp: occurrences_def filter_empty_conv)
qed

text \<open>When no link has an empty \<open>sectionText\<close>, \<open>parseTextWithLinks\<close> returns.\<close>

lemma parse_total:
  "list_all (\<lambda>l. sectionText l \<noteq> []) links \<Longrightarrow> \<exists>segs. parseTextWithLinks d links = Some segs"
  by (cases "links = []") (simp_all add: parse_closed, simp add: parseTextWithLinks_def)

section \<open>The claims about \<open>parseTextWithLinks\<close>\<close>

text \<open>
  Claim C1: \<open>parseTextWithLinks\<close> terminates and returns a segment list for every
  description and every list of links, also for links whose \<open>sectionText\<close> is empty.
  The code does not: for the description \<open>a\<close> and the one link with the empty
  \<open>sectionText\<close>, \<open>indexOf\<close> answers \<open>0, 1, 1, 1, \<dots>\<close> and never \<open>-1\<close>, so the
  \<open>while (true)\<close> loop never reaches its \<open>break\<close>.
\<close>

theorem parse_empty_sectionText_diverges:
  "parseTextWithLinks ''a'' [\<lparr>sectionText = '''', sectionUrl = ''u''\<rparr>] = None"
  by (simp add: parseTextWithLinks_def scanLink_empty_None)

text \<open>
  Claim C3, as stated, fails: for \<open>aaa\<close> and the link text \<open>aa\<close> the occurrences at 0
  and 1 overlap, both are emitted, and the contents concatenate to \<open>aaaa\<close>.
\<close>

theorem concat_overlap_counterexample:
  "parseTextWithLinks ''aaa'' [\<lparr>sectionText = ''aa'', sectionUrl = ''u''\<rparr>]
     = Some [\<lparr>seg_type = LinkSeg, content = ''aa'', url = Some ''u''\<rparr>,
             \<lparr>seg_type = LinkSeg, content = ''aa'', url = Some ''u''\<rparr>]
   \<and> concat (map content [\<lparr>seg_type = LinkSeg, content = ''aa'', url = Some ''u''\<rparr>,
             \<lparr>seg_type = LinkSeg, content = ''aa'', url = Some ''u''\<rparr>]) \<noteq> ''aaa''"
  by code_simp

text \<open>
  Claim C3, amended: when the scan of the links returns the positions \<open>ps\<close> (it does
  when no \<open>sectionText\<close> is empty) and, in ascending order of start, each position
  starts at or after the end of the one before it, \<open>parseTextWithLinks\<close> returns
  segments whose contents, concatenated in output order, are the description.
\<close>

theorem concat_segments_nonOverlapping:
  assumes "scanLinks d links [] = Some ps" and "nonOverlapping 0 (sortPositions ps)"
  shows "\<exists>segs. parseTextWithLinks d links = Some segs \<and> concat (map content segs) = d"
proof (cases "links = []")
  case True
  then show ?thesis by (simp add: parseTextWithLinks_def textSegment_def)
next
  case False
  from assms(1) have ne: "list_all (\<lambda>l. sectionText l \<noteq> []) links" and ps: "ps = allPositions d links"
    by (simp_all add: scanLinks_Some_iff)
  have "concat (map content (segmentsOf d (sortPositions ps))) = drop 0 d"
    unfolding segmentsOf_def using assms(2)
    by (intro concat_emitted) (simp_all add: ps validPos_sortPositions)
  with False ne ps show ?thesis by (simp add: parse_closed)
qed

theorem concat_segments_nonOverlapping_witness:
  "scanLinks ''go go go'' [\<lparr>sectionText = ''go'', sectionUrl = ''u''\<rparr>] []
     = Some [\<lparr>pos_start = 0, pos_end = 2, pos_text = ''go'', pos_url = ''u''\<rparr>,
             \<lparr>pos_start = 3, pos_end = 5, pos_text = ''go'', pos_url = ''u''\<rparr>,
             \<lparr>pos_start = 6, pos_end = 8, pos_text = ''go'', pos_url = ''u''\<rparr>]
   \<and> nonOverlapping 0 (sortPositions
            [\<lparr>pos_start = 0, pos_end = 2, pos_text = ''go'', pos_url = ''u''\<rparr>,
             \<lparr>pos_start = 3, pos_end = 5, pos_text = ''go'', pos_url = ''u''\<rparr>,
             \<lparr>pos_start = 6, pos_end = 8, pos_text = ''go'', pos_url = ''u''\<rparr>])
   \<and> (\<exists>segs. parseTextWithLinks ''go go go'' [\<lparr>sectionText = ''go'', sectionUrl = ''u''\<rparr>] = Some segs
          \<and> concat (map content segs) = ''go go go'')"
proof -
  have a: "scanLinks ''go go go'' [\<lparr>sectionText = ''go'', sectionUrl = ''u''\<rparr>] []
     = Some [\<lparr>pos_start = 0, pos_end = 2, pos_text = ''go'', pos_url = ''u''\<rparr>,
             \<lparr>pos_start = 3, pos_end = 5, pos_text = ''go'', pos_url = ''u''\<rparr>,
             \<lparr>pos_start = 6, pos_end = 8, pos_text = ''go'', pos_url = ''u''\<rparr>]"
    by code_simp
  have b: "nonOverlapping 0 (sortPositions
            [\<lparr>pos_start = 0, pos_end = 2, pos_text = ''go'', pos_url = ''u''\<rparr>,
             \<lparr>pos_start = 3, pos_end = 5, pos_text = ''go'', pos_url = ''u''\<rparr>,
             \<lparr>pos_start = 6, pos_end = 8, pos_text = ''go'', pos_url = ''u''\<rparr>])"
    by code_simp
  from a b concat_segments_nonOverlapping[OF a b] show ?thesis by blast
qed

text \<open>
  Claim C5: the scan of one link resumes one character after the start of the match it
  has just found, not after its end. So it finds every index at which the text occurs,
  overlapping occurrences too, and for the description \<open>go go go\<close> and the one link
  \<open>go\<close> the result is link, text, link, text, link.
\<close>

theorem scan_resumes_after_start:
  "(indexOf d (sectionText lnk) s = Some i \<longrightarrow>
      scanLink d lnk s acc = scanLink d lnk (i + 1) (acc @ [mkPos lnk i]))
   \<and> (sectionText lnk \<noteq> [] \<longrightarrow>
      scanLink d lnk s acc = Some (acc @ map (mkPos lnk) (occurrences d (sectionText lnk) s)))
   \<and> parseTextWithLinks ''go go go'' [\<lparr>sectionText = ''go'', sectionUrl = ''u''\<rparr>]
      = Some [\<lparr>seg_type = LinkSeg, content = ''go'', url = Some ''u''\<rparr>,
              \<lparr>seg_type = TextSeg, content = '' '', url = None\<rparr>,
              \<lparr>seg_type = LinkSeg, content = ''go'', url = Some ''u''\<rparr>,
              \<lparr>seg_type = TextSeg, content = '' '', url = None\<rparr>,
              \<lparr>seg_type = LinkSeg, content = ''go'', url = Some ''u''\<rparr>]"
proof (intro conjI impI)
  assume "indexOf d (sectionText lnk) s = Some i"
  then show "scanLink d lnk s acc = scanLink d lnk (i + 1) (acc @ [mkPos lnk i])"
    by (subst scanLink.simps) (simp add: mkPos_def)
next
  assume "sectionText lnk \<noteq> []"
  then show "scanLink d lnk s acc = Some (acc @ map (mkPos lnk) (occurrences d (sectionText lnk) s))"
    by (rule scanLink_closed)
next
  show "parseTextWithLinks ''go go go'' [\<lparr>sectionText = ''go'', sectionUrl = ''u''\<rparr>]
      = Some [\<lparr>seg_type = LinkSeg, content = ''go'', url = Some ''u''\<rparr>,
              \<lparr>seg_type = TextSeg, content = '' '', url = None\<rparr>,
              \<lparr>seg_type = LinkSeg, content = ''go'', url = Some ''u''\<rparr>,
              \<lparr>seg_type = TextSeg, content = '' '', url = None\<rparr>,
              \<lparr>seg_type = LinkSeg, content = ''go'', url = Some ''u''\<rparr>]"
    by code_simp
qed

theorem scan_resumes_after_start_witness:
  "indexOf ''aaa'' ''aa'' 0 = Some 0
   \<and> scanLink ''aaa'' \<lparr>sectionText = ''aa'', sectionUrl = ''u''\<rparr> 0 []
       = scanLink ''aaa'' \<lparr>sectionText = ''aa'', sectionUrl = ''u''\<rparr> 1
           [\<lparr>pos_start = 0, pos_end = 2, pos_text = ''aa'', pos_url = ''u''\<rparr>]
   \<and> scanLink ''aaa'' \<lparr>sectionText = ''aa'', sectionUrl = ''u''\<rparr> 0 []
       = Some [\<lparr>pos_start = 0, pos_end = 2, pos_text = ''aa'', pos_url = ''u''\<rparr>,
               \<lparr>pos_start = 1, pos_end = 3, pos_text = ''aa'', pos_url = ''u''\<rparr>]"
proof -
  have i: "indexOf ''aaa'' ''aa'' 0 = Some 0" by code_simp
  have o: "occurrences ''aaa'' ''aa'' 0 = [0, 1]" by code_simp
  let ?l = "\<lparr>sectionText = ''aa'', sectionUrl = ''u''\<rparr>"
  note T = scan_resumes_after_start[of "''aaa''" ?l 0 0 "[]"]
  from T have "indexOf ''aaa'' (sectionText ?l) 0 = Some 0 \<longrightarrow>
      scanLink ''aaa'' ?l 0 [] = scanLink ''aaa'' ?l (0 + 1) ([] @ [mkPos ?l 0])"
    by (rule conjunct1)
  with i have c1: "scanLink ''aaa'' ?l 0 [] = scanLink ''aaa'' ?l 1
      [\<lparr>pos_start = 0, pos_end = 2, pos_text = ''aa'', pos_url = ''u''\<rparr>]"
    by (simp add: mkPos_def numeral_2_eq_2)
  from T have "sectionText ?l \<noteq> [] \<longrightarrow>
      scanLink ''aaa'' ?l 0 [] = Some ([] @ map (mkPos ?l) (occurrences ''aaa'' (sectionText ?l) 0))"
    by (rule conjunct2[THEN conjunct1])
  with o have c2: "scanLink ''aaa'' ?l 0 []
       = Some [\<lparr>pos_start = 0, pos_end = 2, pos_text = ''aa'', pos_url = ''u''\<rparr>,
               \<lparr>pos_start = 1, pos_end = 3, pos_text = ''aa'', pos_url = ''u''\<rparr>]"
    by (simp add: mkPos_def numeral_2_eq_2 numeral_3_eq_3)
  from i c1 c2 show ?thesis by blast
qed

lemma allPositions_single: "allPositions d [l] = linkOccurrences d l"
  by (simp add: allPositions_def)





lemma segmentsOf_Nil: "segmentsOf d [] = (if d = [] then [] else [textSegment d])"
  by (simp add: segmentsOf_def trailing_def)

text \<open>
  Claim C7, as stated, fails for the empty description: the text \<open>x\<close> does not occur in
  it, yet the result with that link is the empty list of segments, and the result with no
  link is the single empty text segment.
\<close>

theorem absent_text_counterexample:
  "\<not> sublist ''x'' ''''
   \<and> parseTextWithLinks '''' [\<lparr>sectionText = ''x'', sectionUrl = ''u''\<rparr>] = Some []
   \<and> parseTextWithLinks '''' [] = Some [\<lparr>seg_type = TextSeg, content = '''', url = None\<rparr>]
   \<and> parseTextWithLinks '''' [\<lparr>sectionText = ''x'', sectionUrl = ''u''\<rparr>] \<noteq> parseTextWithLinks '''' []"
  by code_simp

text \<open>
  Claim C7, amended: with no link the result is the single text segment holding the
  description; with one link whose \<open>sectionText\<close> occurs nowhere in the description the
  result is the same as with no link when the description is not empty, and is the empty
  list of segments when the description is empty.
\<close>

theorem no_links_or_absent_text:
  "parseTextWithLinks d [] = Some [\<lparr>seg_type = TextSeg, content = d, url = None\<rparr>]
   \<and> (\<not> sublist (sectionText lnk) d \<longrightarrow>
        parseTextWithLinks d [lnk] = (if d = [] then Some [] else parseTextWithLinks d []))"
proof (intro conjI impI)
  show "parseTextWithLinks d [] = Some [\<lparr>seg_type = TextSeg, content = d, url = None\<rparr>]"
    by (simp add: parseTextWithLinks_def textSegment_def)
next
  assume "\<not> sublist (sectionText lnk) d"
  then have "sectionText lnk \<noteq> []" "occurrences d (sectionText lnk) 0 = []"
    by (rule not_sublist_occurrences)+
  then have "parseTextWithLinks d [lnk] = Some (segmentsOf d [])"
    by (simp add: parse_closed allPositions_def linkOccurrences_def sortPositions_def)
  then show "parseTextWithLinks d [lnk] = (if d = [] then Some [] else parseTextWithLinks d [])"
    by (simp add: segmentsOf_Nil parseTextWithLinks_def)
qed

theorem no_links_or_absent_text_witness:
  "\<not> sublist ''x'' ''ab''
   \<and> parseTextWithLinks ''ab'' [\<lparr>sectionText = ''x'', sectionUrl = ''u''\<rparr>] = parseTextWithLinks ''ab'' []
   \<and> parseTextWithLinks ''ab'' [] = Some [\<lparr>seg_type = TextSeg, content = ''ab'', url = None\<rparr>]"
proof -
  have n: "\<not> sublist ''x'' ''ab''" by code_simp
  with no_links_or_absent_text[of "''ab''" "\<lparr>sectionText = ''x'', sectionUrl = ''u''\<rparr>"]
  show ?thesis by simp
qed

text \<open>
  Claim C8, as stated, fails: for the empty description and the one link \<open>go\<close> the
  result is the empty list of segments, not a single empty text segment.
\<close>

theorem no_description_counterexample:
  "parseTextWithLinks '''' [\<lparr>sectionText = ''go'', sectionUrl = ''u''\<rparr>] = Some []
   \<and> parseTextWithLinks '''' [\<lparr>sectionText = ''go'', sectionUrl = ''u''\<rparr>]
       \<noteq> Some [\<lparr>seg_type = TextSeg, content = '''', url = None\<rparr>]"
  by code_simp

lemma allPositions_no_description: "allPositions [] links = []"
  by (simp add: allPositions_def linkOccurrences_def occurrences_def)

text \<open>
  Claim C8, amended: for the empty description the result is a single text segment with
  empty content when the list of links is empty, and the empty list of segments for every
  non-empty list of links whose \<open>sectionText\<close>s are all non-empty.
\<close>

theorem no_description_segments:
  "parseTextWithLinks [] [] = Some [\<lparr>seg_type = TextSeg, content = [], url = None\<rparr>]
   \<and> (links \<noteq> [] \<and> list_all (\<lambda>l. sectionText l \<noteq> []) links \<longrightarrow>
        parseTextWithLinks [] links = Some [])"
  by (simp add: parse_closed allPositions_no_description sortPositions_def segmentsOf_Nil)
     (simp add: parseTextWithLinks_def textSegment_def)

theorem no_description_segments_witness:
  "[\<lparr>sectionText = ''go'', sectionUrl = ''u''\<rparr>, \<lparr>sectionText = ''x'', sectionUrl = ''v''\<rparr>] \<noteq> []
   \<and> list_all (\<lambda>l. sectionText l \<noteq> [])
        [\<lparr>sectionText = ''go'', sectionUrl = ''u''\<rparr>, \<lparr>sectionText = ''x'', sectionUrl = ''v''\<rparr>]
   \<and> parseTextWithLinks []
        [\<lparr>sectionText = ''go'', sectionUrl = ''u''\<rparr>, \<lparr>sectionText = ''x'', sectionUrl = ''v''\<rparr>] = Some []"
  using no_description_segments[of "[\<lparr>sectionText = ''go'', sectionUrl = ''u''\<rparr>, \<lparr>sectionText = ''x'', sectionUrl = ''v''\<rparr>]"]
  by simp

text \<open>
  Claim C9: for a non-empty description and a non-empty list of links, no text segment of
  the result has empty content. The result exists when no \<open>sectionText\<close> is empty, and
  whenever it exists the property holds.
\<close>

theorem text_segments_nonempty:
  assumes "description \<noteq> []" and "links \<noteq> []"
  shows "(list_all (\<lambda>l. sectionText l \<noteq> []) links \<longrightarrow> parseTextWithLinks description links \<noteq> None)
     \<and> (\<forall>segs seg. parseTextWithLinks description links = Some segs \<and> seg \<in> set segs
            \<and> seg_type seg = TextSeg \<longrightarrow> content seg \<noteq> [])"
proof (intro conjI impI allI)
  assume "list_all (\<lambda>l. sectionText l \<noteq> []) links"
  with assms(2) show "parseTextWithLinks description links \<noteq> None"
    by (simp add: parse_closed)
next
  fix segs seg
  assume a: "parseTextWithLinks description links = Some segs \<and> seg \<in> set segs \<and> seg_type seg = TextSeg"
  let ?ps = "sortPositions (allPositions description links)"
  from a assms(2) have "segs = segmentsOf description ?ps"
    by (simp add: parse_closed split: if_splits)
  with a have "seg \<in> set (emitted description ?ps 0) \<or> seg \<in> set (trailing description (cursorAfter ?ps 0))"
    by (simp add: segmentsOf_def)
  then show "content seg \<noteq> []"
  proof
    assume "seg \<in> set (emitted description ?ps 0)"
    with a show ?thesis
      using text_emitted_nonempty[OF validPos_sortPositions] by (simp add: isText_def)
  next
    assume "seg \<in> set (trailing description (cursorAfter ?ps 0))"
    then show ?thesis by (rule text_trailing_nonempty)
  qed
qed

theorem text_segments_nonempty_witness:
  "''go go go'' \<noteq> [] \<and> [\<lparr>sectionText = ''go'', sectionUrl = ''u''\<rparr>] \<noteq> []
   \<and> list_all (\<lambda>l. sectionText l \<noteq> []) [\<lparr>sectionText = ''go'', sectionUrl = ''u''\<rparr>]
   \<and> parseTextWithLinks ''go go go'' [\<lparr>sectionText = ''go'', sectionUrl = ''u''\<rparr>] \<noteq> None
   \<and> parseTextWithLinks ''go go go'' [\<lparr>sectionText = ''go'', sectionUrl = ''u''\<rparr>]
      = Some [\<lparr>seg_type = LinkSeg, content = ''go'', url = Some ''u''\<rparr>,
              \<lparr>seg_type = TextSeg, content = '' '', url = None\<rparr>,
              \<lparr>seg_type = LinkSeg, content = ''go'', url = Some ''u''\<rparr>,
              \<lparr>seg_type = TextSeg, content = '' '', url = None\<rparr>,
              \<lparr>seg_type = LinkSeg, content = ''go'', url = Some ''u''\<rparr>]
   \<and> content \<lparr>seg_type = TextSeg, content = '' '', url = None\<rparr> \<noteq> []"
proof -
  let ?links = "[\<lparr>sectionText = ''go'', sectionUrl = ''u''\<rparr>]"
  have d: "''go go go'' \<noteq> []" and l: "?links \<noteq> []"
    and n: "list_all (\<lambda>l. sectionText l \<noteq> []) ?links"
    by simp_all
  have a: "parseTextWithLinks ''go go go'' ?links
      = Some [\<lparr>seg_type = LinkSeg, content = ''go'', url = Some ''u''\<rparr>,
              \<lparr>seg_type = TextSeg, content = '' '', url = None\<rparr>,
              \<lparr>seg_type = LinkSeg, content = ''go'', url = Some ''u''\<rparr>,
              \<lparr>seg_type = TextSeg, content = '' '', url = None\<rparr>,
              \<lparr>seg_type = LinkSeg, content = ''go'', url = Some ''u''\<rparr>]"
    by code_simp
  note T = text_segments_nonempty[OF d l]
  from T n have "parseTextWithLinks ''go go go'' ?links \<noteq> None" by blast
  moreover from T a have "content \<lparr>seg_type = TextSeg, content = '' '', url = None\<rparr> \<noteq> []"
    by simp
  ultimately show ?thesis using a by simp
qed

text \<open>
  Whenever \<open>parseTextWithLinks\<close> returns: the links that match at the same start index
  \<open>k\<close> each give one link segment with their own \<open>sectionUrl\<close>; these segments are
  adjacent in the result and in the order of declaration of the links. Before them the
  result holds the link segments of the occurrences that start before \<open>k\<close>, after them
  those of the occurrences that start after \<open>k\<close>. (The order among equal starts is that
  of a stable sort.)
\<close>

lemma links_at_same_start:
  assumes "parseTextWithLinks d links = Some segs"
  shows "\<exists>pre post.
       segs = pre @ map (\<lambda>l. \<lparr>seg_type = LinkSeg, content = sectionText l, url = Some (sectionUrl l)\<rparr>)
                      (filter (\<lambda>l. occursAt d (sectionText l) k) links) @ post
     \<and> filter isLink pre
         = map linkSegment (filter (\<lambda>p. pos_start p < k) (sortPositions (allPositions d links)))
     \<and> filter isLink post
         = map linkSegment (filter (\<lambda>p. k < pos_start p) (sortPositions (allPositions d links)))"
proof (cases "links = []")
  case True
  with assms have "segs = [textSegment d] @ [] @ []"
    by (simp add: parseTextWithLinks_def)
  moreover have "filter isLink [textSegment d] = []" "filter isLink ([]::segment list) = []"
    by (simp_all add: isLink_def textSegment_def)
  ultimately have "\<exists>pre post. segs = pre @ [] @ post \<and> filter isLink pre = [] \<and> filter isLink post = []"
    by blast
  with True show ?thesis
    by (simp add: allPositions_def sortPositions_def)
next
  case False
  let ?ps = "sortPositions (allPositions d links)"
  from assms False have segs: "segs = segmentsOf d ?ps"
    by (simp add: parse_closed split: if_splits)
  have "sorted (map pos_start ?ps)" by (simp add: sortPositions_def)
  from segmentsOf_at[OF this validPos_sortPositions, of k]
  obtain pre post where pp:
    "segmentsOf d ?ps = pre @ map linkSegment (filter (\<lambda>p. pos_start p = k) ?ps) @ post"
    "filter isLink pre = map linkSegment (filter (\<lambda>p. pos_start p < k) ?ps)"
    "filter isLink post = map linkSegment (filter (\<lambda>p. k < pos_start p) ?ps)"
    by blast
  have "map linkSegment (filter (\<lambda>p. pos_start p = k) ?ps)
      = map (\<lambda>l. \<lparr>seg_type = LinkSeg, content = sectionText l, url = Some (sectionUrl l)\<rparr>)
          (filter (\<lambda>l. occursAt d (sectionText l) k) links)"
    by (simp add: sortPositions_at linkSegment_def mkPos_def comp_def)
  with pp segs show ?thesis by metis
qed

lemma links_at_same_start_example:
  "parseTextWithLinks ''ab'' [\<lparr>sectionText = ''a'', sectionUrl = ''u1''\<rparr>, \<lparr>sectionText = ''a'', sectionUrl = ''u2''\<rparr>]
     = Some [\<lparr>seg_type = LinkSeg, content = ''a'', url = Some ''u1''\<rparr>,
             \<lparr>seg_type = LinkSeg, content = ''a'', url = Some ''u2''\<rparr>,
             \<lparr>seg_type = TextSeg, content = ''b'', url = None\<rparr>]
   \<and> (\<exists>pre post.
         [\<lparr>seg_type = LinkSeg, content = ''a'', url = Some ''u1''\<rparr>,
          \<lparr>seg_type = LinkSeg, content = ''a'', url = Some ''u2''\<rparr>,
          \<lparr>seg_type = TextSeg, content = ''b'', url = None\<rparr>]
         = pre @ [\<lparr>seg_type = LinkSeg, content = ''a'', url = Some ''u1''\<rparr>,
                  \<lparr>seg_type = LinkSeg, content = ''a'', url = Some ''u2''\<rparr>] @ post)"
proof -
  let ?links = "[\<lparr>sectionText = ''a'', sectionUrl = ''u1''\<rparr>, \<lparr>sectionText = ''a'', sectionUrl = ''u2''\<rparr>]"
  have a: "parseTextWithLinks ''ab'' ?links
     = Some [\<lparr>seg_type = LinkSeg, content = ''a'', url = Some ''u1''\<rparr>,
             \<lparr>seg_type = LinkSeg, content = ''a'', url = Some ''u2''\<rparr>,
             \<lparr>seg_type = TextSeg, content = ''b'', url = None\<rparr>]"
    by code_simp
  have f: "filter (\<lambda>l. occursAt ''ab'' (sectionText l) 0) ?links = ?links"
    by (simp add: occursAt_def)
  from links_at_same_start[OF a, of 0] f a show ?thesis
    by (simp del: append_eq_Cons_conv Cons_eq_append_conv) blast
qed

text \<open>
  Claim C10: when two distinct links both match at the same start index, the result holds
  one link segment for each of them at that position, adjacent and in the order of
  declaration, each with its own \<open>sectionUrl\<close>. The code does so whenever it returns
  (\<open>links_at_same_start\<close>), and it returns when no \<open>sectionText\<close> is empty. It does
  not for the description \<open>ab\<close> and the two links with the empty text and the text
  \<open>a\<close>: both match at index 0, and the scan of the first link never ends, so that
  no segment is returned at all. This is the defect of claim C1.
\<close>

theorem same_start_empty_sectionText_diverges:
  "indexOf ''ab'' '''' 0 = Some 0 \<and> indexOf ''ab'' ''a'' 0 = Some 0
   \<and> parseTextWithLinks ''ab''
        [\<lparr>sectionText = '''', sectionUrl = ''u1''\<rparr>, \<lparr>sectionText = ''a'', sectionUrl = ''u2''\<rparr>]
      = None"
proof -
  have "indexOf ''ab'' '''' 0 = Some 0" "indexOf ''ab'' ''a'' 0 = Some 0"
    by code_simp+
  moreover have "parseTextWithLinks ''ab''
        [\<lparr>sectionText = '''', sectionUrl = ''u1''\<rparr>, \<lparr>sectionText = ''a'', sectionUrl = ''u2''\<rparr>]
      = None"
    by (simp add: parse_closed)
  ultimately show ?thesis by simp
qed

section \<open>Properties of the schedule\<close>

lemmas config_simps = ANIMATION_CONFIG_def featureAnimationTriggerDelay_def animationDelay_def

lemma fold_featureEffect_off:
  "\<not> shouldAnimateFeatures s \<Longrightarrow> fold featureEffect xs s = s"
  by (induction xs) (simp_all add: featureEffect_def)

lemma mount_eq:
  "mount n =
     \<lparr>clock = 0, mounted = True, shouldAnimateFeatures = False, featureCount = n,
      timers = [\<lparr>due = 600, callback = MoveUp\<rparr>, \<lparr>due = 1600, callback = TriggerFeatures\<rparr>,
                \<lparr>due = 1800 + n * 420, callback = BlurIn\<rparr>],
      animations =
        [\<lparr>anim_value = iconTitleOpacity, anim_toValue = 1, anim_duration = 600, anim_start = 0\<rparr>,
         \<lparr>anim_value = iconTitleScale, anim_toValue = 1, anim_duration = 600, anim_start = 0\<rparr>]\<rparr>"
  unfolding mount_def
  by (subst fold_featureEffect_off)
     (simp_all add: mountEffect_def setTimeout_def startTiming_def config_simps)

lemma enqueue_append:
  "list_all (\<lambda>u. due u \<le> due t) xs \<Longrightarrow> enqueue t (xs @ ys) = xs @ enqueue t ys"
  by (induction xs) simp_all

lemma fold_featureEffect_on:
  assumes "shouldAnimateFeatures s" "timers s = [b]" "clock s + animationDelay n \<le> due b"
  shows "fold featureEffect [0..<n] s = s\<lparr>timers := map (featureTimer (clock s)) [0..<n] @ [b]\<rparr>"
  using assms(3)
proof (induction n)
  case 0
  with assms show ?case by simp
next
  case (Suc n)
  then have IH: "fold featureEffect [0..<n] s = s\<lparr>timers := map (featureTimer (clock s)) [0..<n] @ [b]\<rparr>"
    by (simp add: config_simps)
  have enq: "enqueue (featureTimer (clock s) n) (map (featureTimer (clock s)) [0..<n] @ [b])
      = map (featureTimer (clock s)) [0..<n] @ [featureTimer (clock s) n, b]"
  proof -
    have "enqueue (featureTimer (clock s) n) (map (featureTimer (clock s)) [0..<n] @ [b])
        = map (featureTimer (clock s)) [0..<n] @ enqueue (featureTimer (clock s) n) [b]"
      by (rule enqueue_append) (simp add: list_all_iff featureTimer_def config_simps)
    also have "enqueue (featureTimer (clock s) n) [b] = [featureTimer (clock s) n, b]"
      using Suc.prems by (simp add: featureTimer_def config_simps)
    finally show ?thesis .
  qed
  let ?s' = "s\<lparr>timers := map (featureTimer (clock s)) [0..<n] @ [b]\<rparr>"
  have "fold featureEffect [0..<Suc n] s = featureEffect n (fold featureEffect [0..<n] s)"
    by simp
  also have "\<dots> = featureEffect n ?s'"
    by (simp only: IH)
  also have "\<dots> = ?s'\<lparr>timers := enqueue (featureTimer (clock s) n) (timers ?s')\<rparr>"
    using assms(1) by (simp add: featureEffect_def setTimeout_def featureTimer_def)
  also have "\<dots> = s\<lparr>timers := map (featureTimer (clock s)) [0..<Suc n] @ [b]\<rparr>"
    using enq by simp
  finally show ?case .
qed

lemma run_add: "run (a + b) s = run b (run a s)"
  by (induction a arbitrary: s) simp_all

lemma run_idle: "timers s = [] \<Longrightarrow> run k s = s"
  by (induction k) (simp_all add: fire_def)

lemma fire_feature:
  assumes "timers s = featureTimer c j # ts" "clock s \<le> c + animationDelay j"
  shows "fire s = s\<lparr>clock := c + animationDelay j, timers := ts,
                    animations := animations s @ featureAnimations c j\<rparr>"
  using assms by (simp add: fire_def featureTimer_def featureAnimations_def startTiming_def max_def)

lemma run_features:
  assumes "timers s = map (featureTimer c) [j..<n] @ rest" "clock s \<le> c + animationDelay j"
  shows "timers (run (n - j) s) = rest
     \<and> animations (run (n - j) s) = animations s @ concat (map (featureAnimations c) [j..<n])
     \<and> clock (run (n - j) s) \<le> max (clock s) (c + animationDelay n)"
  using assms
proof (induction "n - j" arbitrary: j s)
  case 0
  then show ?case by simp
next
  case (Suc k)
  then have jn: "j < n" and k: "k = n - Suc j" by arith+
  with Suc.prems have t: "timers s = featureTimer c j # (map (featureTimer c) [Suc j..<n] @ rest)"
    by (simp add: upt_conv_Cons)
  let ?s' = "s\<lparr>clock := c + animationDelay j, timers := map (featureTimer c) [Suc j..<n] @ rest,
                    animations := animations s @ featureAnimations c j\<rparr>"
  have f: "fire s = ?s'" using t Suc.prems(2) by (rule fire_feature)
  have "timers (run (n - Suc j) ?s') = rest
     \<and> animations (run (n - Suc j) ?s') = animations ?s' @ concat (map (featureAnimations c) [Suc j..<n])
     \<and> clock (run (n - Suc j) ?s') \<le> max (clock ?s') (c + animationDelay n)"
    by (rule Suc.hyps(1)[OF k]) (simp_all add: config_simps)
  moreover have "run (n - j) s = run (n - Suc j) ?s'"
  proof -
    from jn have "n - j = Suc (n - Suc j)" by arith
    then show ?thesis by (simp only: run.simps f)
  qed
  moreover have "c + animationDelay j \<le> c + animationDelay n"
    using jn by (simp add: config_simps)
  ultimately show ?case
    using jn by (simp add: upt_conv_Cons max_def)
qed

lemma fire_mount: "fire (mount n) = afterMoveUp n"
  by (simp add: fire_def mount_eq afterMoveUp_def startTiming_def config_simps)

lemma fire_afterMoveUp:
  "fire (afterMoveUp n) =
     (afterMoveUp n)\<lparr>clock := 1600, shouldAnimateFeatures := True,
        timers := map (featureTimer 1600) [0..<n] @ [\<lparr>due = 1800 + n * 420, callback = BlurIn\<rparr>]\<rparr>"
proof -
  let ?s = "(afterMoveUp n)\<lparr>clock := 1600, timers := [\<lparr>due = 1800 + n * 420, callback = BlurIn\<rparr>],
              shouldAnimateFeatures := True\<rparr>"
  have "fire (afterMoveUp n) = fold featureEffect [0..<n] ?s"
    by (simp add: fire_def afterMoveUp_def setShouldAnimateFeatures_def)
  also have "\<dots> = ?s\<lparr>timers := map (featureTimer (clock ?s)) [0..<n] @ [\<lparr>due = 1800 + n * 420, callback = BlurIn\<rparr>]\<rparr>"
    by (rule fold_featureEffect_on) (simp_all add: config_simps)
  finally show ?thesis by simp
qed

lemma run_mounted:
  "timers (run (n + 3) (mount n)) = []
   \<and> animations (run (n + 3) (mount n)) =
       [\<lparr>anim_value = iconTitleOpacity, anim_toValue = 1, anim_duration = 600, anim_start = 0\<rparr>,
        \<lparr>anim_value = iconTitleScale, anim_toValue = 1, anim_duration = 600, anim_start = 0\<rparr>,
        \<lparr>anim_value = iconTitleTranslateY, anim_toValue = 0, anim_duration = 800, anim_start = 600\<rparr>]
       @ concat (map (featureAnimations 1600) [0..<n])
       @ [\<lparr>anim_value = blurViewOpacity, anim_toValue = 1, anim_duration = 750,
           anim_start = 1800 + n * 420\<rparr>]"
proof -
  let ?blur = "\<lparr>due = 1800 + n * 420, callback = BlurIn\<rparr>"
  let ?s2 = "(afterMoveUp n)\<lparr>clock := 1600, shouldAnimateFeatures := True,
        timers := map (featureTimer 1600) [0..<n] @ [?blur]\<rparr>"
  have s2: "run 2 (mount n) = ?s2"
    by (simp add: numeral_2_eq_2 fire_mount fire_afterMoveUp)
  have "timers ?s2 = map (featureTimer 1600) [0..<n] @ [?blur]" "clock ?s2 \<le> 1600 + animationDelay 0"
    by simp_all
  from run_features[OF this]
  have r: "timers (run n ?s2) = [?blur]"
    "animations (run n ?s2) = animations ?s2 @ concat (map (featureAnimations 1600) [0..<n])"
    "clock (run n ?s2) \<le> max (clock ?s2) (1600 + animationDelay n)"
    by simp_all
  from r(3) have c: "clock (run n ?s2) \<le> 1800 + n * 420"
    by (simp add: config_simps)
  have e: "n + 3 = 2 + (n + 1)" by simp
  have "run (n + 3) (mount n) = run (n + 1) (run 2 (mount n))"
    unfolding e by (rule run_add)
  also have "\<dots> = run 1 (run n ?s2)"
    unfolding s2 by (rule run_add)
  also have "\<dots> = fire (run n ?s2)" by simp
  finally have "run (n + 3) (mount n) = fire (run n ?s2)" .
  with r(1,2) c show ?thesis
    by (simp add: fire_def startTiming_def afterMoveUp_def max_def config_simps)
qed

lemma find_featureOpacity:
  "j \<le> i \<Longrightarrow> i < n \<Longrightarrow>
     find (\<lambda>a. anim_value a = featureOpacity i) (concat (map (featureAnimations c) [j..<n]) @ rest)
       = Some (featureAnimations c i ! 0)"
proof (induction "i - j" arbitrary: j)
  case 0
  then have "[j..<n] = i # [Suc i..<n]" by (simp add: upt_conv_Cons)
  then show ?case by (simp add: featureAnimations_def)
next
  case (Suc k)
  then have "[j..<n] = j # [Suc j..<n]" "j \<noteq> i" by (simp_all add: upt_conv_Cons)
  moreover from Suc have "find (\<lambda>a. anim_value a = featureOpacity i)
      (concat (map (featureAnimations c) [Suc j..<n]) @ rest) = Some (featureAnimations c i ! 0)"
    by (intro Suc.hyps(1)) simp_all
  ultimately show ?case by (simp add: featureAnimations_def)
qed

lemma find_featureTranslateY:
  "j \<le> i \<Longrightarrow> i < n \<Longrightarrow>
     find (\<lambda>a. anim_value a = featureTranslateY i) (concat (map (featureAnimations c) [j..<n]) @ rest)
       = Some (featureAnimations c i ! 1)"
proof (induction "i - j" arbitrary: j)
  case 0
  then have "[j..<n] = i # [Suc i..<n]" by (simp add: upt_conv_Cons)
  then show ?case by (simp add: featureAnimations_def)
next
  case (Suc k)
  then have "[j..<n] = j # [Suc j..<n]" "j \<noteq> i" by (simp_all add: upt_conv_Cons)
  moreover from Suc have "find (\<lambda>a. anim_value a = featureTranslateY i)
      (concat (map (featureAnimations c) [Suc j..<n]) @ rest) = Some (featureAnimations c i ! 1)"
    by (intro Suc.hyps(1)) simp_all
  ultimately show ?case by (simp add: featureAnimations_def)
qed

lemma find_blurViewOpacity:
  "find (\<lambda>a. anim_value a = blurViewOpacity) (concat (map (featureAnimations c) xs) @ rest)
     = find (\<lambda>a. anim_value a = blurViewOpacity) rest"
  by (induction xs) (simp_all add: featureAnimations_def)

lemma startOf_features:
  assumes "i < n"
  shows "startOf (featureOpacity i) (run (n + 3) (mount n)) = Some (1600 + i * 420)"
    and "startOf (featureTranslateY i) (run (n + 3) (mount n)) = Some (1600 + i * 420)"
  using assms run_mounted[of n]
  by (simp_all add: startOf_def find_featureOpacity find_featureTranslateY)
     (simp_all add: featureAnimations_def config_simps)

lemma startOf_blur:
  "startOf blurViewOpacity (run (n + 3) (mount n)) = Some (1800 + n * 420)"
  using run_mounted[of n] by (simp add: startOf_def find_blurViewOpacity)

lemma run_unmounted:
  "run 3 (unmount (mount n)) =
     (unmount (mount n))\<lparr>clock := 1800 + n * 420, timers := [],
        animations := animations (mount n) @
          [\<lparr>anim_value = iconTitleTranslateY, anim_toValue = 0, anim_duration = 800, anim_start = 600\<rparr>,
           \<lparr>anim_value = blurViewOpacity, anim_toValue = 1, anim_duration = 750,
             anim_start = 1800 + n * 420\<rparr>]\<rparr>"
  by (simp add: numeral_3_eq_3 fire_def unmount_def mount_eq startTiming_def
        setShouldAnimateFeatures_def config_simps)

section \<open>The claims about the schedule\<close>

text \<open>
  Claim C4: under the default constants, the feature at index \<open>i\<close> of \<open>n\<close> starts its
  fade and rise at \<open>FADE_IN_DURATION + MOVE_UP_DURATION + BUFFER_DELAY + i * STAGGER_DELAY\<close>
  after mount, and the trailing panel starts its fade at
  \<open>FADE_IN_DURATION + MOVE_UP_DURATION + BUFFER_DELAY + n * STAGGER_DELAY + BUFFER_DELAY\<close>.
  With three features, the feature at index 2 starts at 2440 and the panel at 3060. The
  screen has \<open>n + 3\<close> timers in all.
\<close>

theorem feature_start_times:
  "(\<forall>i<n.
      startOf (featureOpacity i) (run (n + 3) (mount n))
        = Some (FADE_IN_DURATION ANIMATION_CONFIG + MOVE_UP_DURATION ANIMATION_CONFIG
                + BUFFER_DELAY ANIMATION_CONFIG + i * STAGGER_DELAY ANIMATION_CONFIG)
      \<and> startOf (featureTranslateY i) (run (n + 3) (mount n))
        = Some (FADE_IN_DURATION ANIMATION_CONFIG + MOVE_UP_DURATION ANIMATION_CONFIG
                + BUFFER_DELAY ANIMATION_CONFIG + i * STAGGER_DELAY ANIMATION_CONFIG))
   \<and> startOf blurViewOpacity (run (n + 3) (mount n))
        = Some (FADE_IN_DURATION ANIMATION_CONFIG + MOVE_UP_DURATION ANIMATION_CONFIG
                + BUFFER_DELAY ANIMATION_CONFIG + n * STAGGER_DELAY ANIMATION_CONFIG
                + BUFFER_DELAY ANIMATION_CONFIG)
   \<and> timers (run (n + 3) (mount n)) = []
   \<and> startOf (featureOpacity 2) (run 6 (mount 3)) = Some 2440
   \<and> startOf (featureTranslateY 2) (run 6 (mount 3)) = Some 2440
   \<and> startOf blurViewOpacity (run 6 (mount 3)) = Some 3060"
proof -
  have "startOf (featureOpacity 2) (run (3 + 3) (mount 3)) = Some (1600 + 2 * 420)"
    "startOf (featureTranslateY 2) (run (3 + 3) (mount 3)) = Some (1600 + 2 * 420)"
    "startOf blurViewOpacity (run (3 + 3) (mount 3)) = Some (1800 + 3 * 420)"
    by (simp_all only: startOf_features startOf_blur)
  then have "startOf (featureOpacity 2) (run 6 (mount 3)) = Some 2440"
    "startOf (featureTranslateY 2) (run 6 (mount 3)) = Some 2440"
    "startOf blurViewOpacity (run 6 (mount 3)) = Some 3060"
    by simp_all
  then show ?thesis
    using run_mounted[of n]
    by (simp add: startOf_features startOf_blur config_simps)
qed

theorem feature_start_times_witness:
  "(2::nat) < 3
   \<and> startOf (featureOpacity 2) (run (3 + 3) (mount 3)) = Some (600 + 800 + 200 + 2 * 420)
   \<and> startOf (featureTranslateY 2) (run (3 + 3) (mount 3)) = Some (600 + 800 + 200 + 2 * 420)"
  using feature_start_times[of 3] by (simp add: ANIMATION_CONFIG_def)

text \<open>
  Claim C2, as stated, fails: after an unmount that comes before any timer has fired, the
  three timers of the mount effect are still pending, and when they fire the animations of
  \<open>iconTitleTranslateY\<close> (at 600) and of \<open>blurViewOpacity\<close> (at 3060, with three
  features) are started.
\<close>

theorem unmount_leaves_timers_counterexample:
  "timers (unmount (mount 3))
     = [\<lparr>due = 600, callback = MoveUp\<rparr>, \<lparr>due = 1600, callback = TriggerFeatures\<rparr>,
        \<lparr>due = 3060, callback = BlurIn\<rparr>]
   \<and> animations (run 3 (unmount (mount 3)))
     = animations (unmount (mount 3)) @
        [\<lparr>anim_value = iconTitleTranslateY, anim_toValue = 0, anim_duration = 800, anim_start = 600\<rparr>,
         \<lparr>anim_value = blurViewOpacity, anim_toValue = 1, anim_duration = 750, anim_start = 3060\<rparr>]
   \<and> animations (run 3 (unmount (mount 3))) \<noteq> animations (unmount (mount 3))"
  by (simp add: run_unmounted) (simp add: unmount_def mount_eq)

text \<open>
  Claim C2, amended: unmounting cancels nothing and starts nothing. After an unmount that
  comes before any timer has fired, the timers of the mount effect stay pending; once they
  have fired, the animation of \<open>iconTitleTranslateY\<close> has started at
  \<open>FADE_IN_DURATION\<close> and the one of \<open>blurViewOpacity\<close> at the time of claim C4, and
  no animation of a feature's opacity or translateY is ever started (the update of
  \<open>shouldAnimateFeatures\<close> on the unmounted component does nothing, so no feature sets
  its timer). This holds however long the runtime goes on (\<open>k\<close> more steps).
\<close>

theorem unmount_cancels_nothing:
  "timers (unmount (mount n)) = timers (mount n)
   \<and> animations (unmount (mount n)) = animations (mount n)
   \<and> animations (run (3 + k) (unmount (mount n)))
       = animations (mount n) @
          [\<lparr>anim_value = iconTitleTranslateY, anim_toValue = 0,
            anim_duration = MOVE_UP_DURATION ANIMATION_CONFIG,
            anim_start = FADE_IN_DURATION ANIMATION_CONFIG\<rparr>,
           \<lparr>anim_value = blurViewOpacity, anim_toValue = 1,
            anim_duration = FEATURE_DURATION ANIMATION_CONFIG,
            anim_start = FADE_IN_DURATION ANIMATION_CONFIG + MOVE_UP_DURATION ANIMATION_CONFIG
                + BUFFER_DELAY ANIMATION_CONFIG + n * STAGGER_DELAY ANIMATION_CONFIG
                + BUFFER_DELAY ANIMATION_CONFIG\<rparr>]
   \<and> timers (run (3 + k) (unmount (mount n))) = []"
proof -
  have "run (3 + k) (unmount (mount n)) = run k (run 3 (unmount (mount n)))"
    by (rule run_add)
  also have "\<dots> = run 3 (unmount (mount n))"
    by (rule run_idle) (simp add: run_unmounted)
  finally show ?thesis
    by (simp add: run_unmounted) (simp add: unmount_def config_simps)
qed

end
